theory Spec2Isabelle
  imports Main
begin

section \<open>The transaction wrapper of \<^verbatim>\<open>src/lib/transaction.js\<close>\<close>

text \<open>
  The functions declared inside \<^verbatim>\<open>TransactionDatabase\<close> reach their shared state and each
  other through properties of the wrapper object: \<^verbatim>\<open>transdb.queue\<close>, \<^verbatim>\<open>transdb._lock\<close>,
  \<^verbatim>\<open>transdb.currentTransaction\<close>, \<^verbatim>\<open>self.db\<close>, \<^verbatim>\<open>self._wait\<close>, \<^verbatim>\<open>self._exec\<close>,
  \<^verbatim>\<open>self._runQueue\<close> and \<^verbatim>\<open>self.beginTransaction\<close>. The first part of this theory embeds
  those functions over a record of these properties, each property holding the state or the
  function of the same name: it says what the functions do on a wrapper that has them. The
  second part embeds the constructor itself over JavaScript values, as it is written; the
  constructor keeps the state in local variables and assigns none of these properties.

  JavaScript runs one callback at a time. A function of the source becomes a function from
  the state to a result; what the source hands to the driver, to a timer or to the caller is
  appended to a trace, and the environment continues by calling one of the function values
  it was handed.
\<close>

subsection \<open>Values, closures and queue entries\<close>

datatype js_error = Error string | TypeError string | ReferenceError string

text \<open>The underlying objects a wrapped method is dispatched to: the connection
  (\<^verbatim>\<open>self.db\<close>) and the statements \<^verbatim>\<open>db.prepare\<close> returned.\<close>

datatype target = Connection | Statement nat

text \<open>
  Values passed as arguments. The function values are the caller's own functions
  (\<open>UserFn\<close>, opaque: calling one is recorded and returns) and the closures the source
  creates and passes on as callbacks: \<open>dummyCallback\<close> (line 180), \<open>newCallback\<close> with its
  \<^verbatim>\<open>originalCallback\<close> (line 208), the anonymous function of line 132 that closes over
  \<^verbatim>\<open>cb\<close> (\<open>commitFailed\<close>) and the empty function of line 44 (\<open>noop\<close>). \<open>Tr\<close> is the
  transaction handle \<^verbatim>\<open>tr\<close>, which line 112 makes the connection object \<^verbatim>\<open>self.db\<close>.
\<close>

datatype val =
    Undefined
  | Null
  | Str string
  | ErrorObj string
  | Tr
  | UserFn nat
  | dummyCallback
  | newCallback val
  | commitFailed val
  | noop

text \<open>The three users of \<^verbatim>\<open>_wait\<close> inside one activation of \<^verbatim>\<open>beginTransaction\<close>.\<close>

datatype waiter = BeginW | CommitW | RollbackW

text \<open>
  Closures handed to timers and to \<^verbatim>\<open>_exec\<close>. \<open>Check w tx cb\<close> is the function
  \<^verbatim>\<open>check\<close> of a call of \<^verbatim>\<open>_wait\<close> (line 65) made by \<open>w\<close>; \<open>ExecDone w tx cb\<close> is the
  function passed to \<^verbatim>\<open>_exec\<close> with the command of \<open>w\<close> (lines 129, 146, 155). \<open>tx\<close>
  numbers the activation of \<^verbatim>\<open>beginTransaction\<close> whose variables (\<^verbatim>\<open>finished\<close>) the
  closure captured, and \<open>cb\<close> is the callback in its scope (\<^verbatim>\<open>callback\<close> for begin,
  \<^verbatim>\<open>cb\<close> for commit and rollback).
\<close>

datatype kont = Check waiter nat val | ExecDone waiter nat val

text \<open>
  A queue entry \<^verbatim>\<open>{type, object, method, args}\<close>. The source builds entries in two
  places only: line 102 (\<^verbatim>\<open>type: 'transaction'\<close>, always with \<^verbatim>\<open>object: self\<close> and
  \<^verbatim>\<open>method: 'beginTransaction'\<close>) and line 235 (\<^verbatim>\<open>type\<close> \<^verbatim>\<open>'lock'\<close> or \<^verbatim>\<open>'simple'\<close>,
  with an underlying object and one of its methods). \<open>Method locking object name args\<close>
  has type \<^verbatim>\<open>'lock'\<close> when \<open>locking\<close> holds and \<^verbatim>\<open>'simple'\<close> otherwise.
\<close>

datatype item =
    Transaction "val list"
  | Method bool target string "val list"

datatype event =
    Exec string kont
  | Apply target string "val list"
  | Called nat "val list"
  | SetTimeout kont nat
  | Emit string val

text \<open>
  \<open>Exec sql k\<close>: \<^verbatim>\<open>self._exec(sql, k)\<close>. \<open>Apply obj m args\<close>:
  \<^verbatim>\<open>obj[m].apply(obj, args)\<close> on an underlying object. \<open>Called n args\<close>: the caller's
  function \<open>UserFn n\<close> was called with \<open>args\<close>. \<open>SetTimeout k d\<close>: \<^verbatim>\<open>setTimeout(k, d)\<close>.
  \<open>Emit name e\<close>: \<^verbatim>\<open>transactionDatabase.db.emit(name, e)\<close>.
\<close>

record state =
  queue :: "item list"
  lock :: int
  currentTransaction :: val
  finished :: "nat set"
  bound :: "nat option"
  begun :: nat
  trace :: "event list"

text \<open>
  \<open>lock\<close> is \<^verbatim>\<open>_lock\<close>. \<open>finished\<close> holds the activations of \<^verbatim>\<open>beginTransaction\<close>
  whose variable \<^verbatim>\<open>finished\<close> is true. \<open>bound\<close> is the activation whose closures the
  properties \<^verbatim>\<open>commit\<close> and \<^verbatim>\<open>rollback\<close> of the connection object hold (lines 123
  and 142 assign them at every activation), \<open>None\<close> before the first. \<open>begun\<close> counts
  the activations so far.

  A thrown exception is \<open>Inl\<close>, with the state at the throw: what the code assigned before
  it threw stays assigned.
\<close>

type_synonym result = "(js_error \<times> state) + state"

definition state_of :: "result \<Rightarrow> state" where
  "state_of r = (case r of Inl (e, s) \<Rightarrow> s | Inr s \<Rightarrow> s)"

definition and_then :: "result \<Rightarrow> (state \<Rightarrow> result) \<Rightarrow> result" where
  "and_then r f = (case r of Inl x \<Rightarrow> Inl x | Inr s \<Rightarrow> f s)"

definition idle :: state where
  "idle = \<lparr>queue = [], lock = 0, currentTransaction = Null, finished = {}, bound = None,
           begun = 0, trace = []\<rparr>"

fun is_fn :: "val \<Rightarrow> bool" where
  "is_fn (UserFn n) = True"
| "is_fn dummyCallback = True"
| "is_fn (newCallback f) = True"
| "is_fn (commitFailed cb) = True"
| "is_fn noop = True"
| "is_fn v = False"

definition truthy :: "val \<Rightarrow> bool" where
  "truthy v = (v \<noteq> Undefined \<and> v \<noteq> Null \<and> v \<noteq> Str [])"

text \<open>\<^verbatim>\<open>v == null\<close> holds of \<^verbatim>\<open>null\<close> and \<^verbatim>\<open>undefined\<close>.\<close>

definition nullish :: "val \<Rightarrow> bool" where
  "nullish v = (v = Null \<or> v = Undefined)"

text \<open>\<^verbatim>\<open>args[i]\<close>: \<^verbatim>\<open>undefined\<close> outside the arguments given.\<close>

definition arg :: "val list \<Rightarrow> nat \<Rightarrow> val" where
  "arg args i = (if i < length args then args ! i else Undefined)"

definition emit :: "event \<Rightarrow> state \<Rightarrow> state" where
  "emit e s = s\<lparr>trace := trace s @ [e]\<rparr>"

subsection \<open>Calling a callback\<close>

text \<open>
  Lines 180-182 (\<^verbatim>\<open>dummyCallback\<close>), 208-212 (\<^verbatim>\<open>newCallback\<close>), 132-134 (the callback
  given to \<^verbatim>\<open>tr.rollback\<close> after a failed COMMIT: it evaluates the identifier
  \<^verbatim>\<open>error\<close>, which no scope of the file declares, so it throws a ReferenceError before
  \<^verbatim>\<open>cb\<close> is called) and 44-45. Calling a value that is not a function throws a TypeError.
  \<^verbatim>\<open>dummyCallback\<close> emits on the connection; what the listeners of the event do then
  is a step of its own (\<open>connection_error\<close> below).
\<close>

fun invoke :: "val \<Rightarrow> val list \<Rightarrow> state \<Rightarrow> result" where
  "invoke (UserFn n) args s = Inr (emit (Called n args) s)"
| "invoke dummyCallback args s =
     (if truthy (arg args 0) then Inr (emit (Emit ''error'' (arg args 0)) s) else Inr s)"
| "invoke (newCallback originalCallback) args s =
     (if lock s < 1 then Inl (Error ''Locks are not balanced'', s)
      else invoke originalCallback args (s\<lparr>lock := lock s - 1\<rparr>))"
| "invoke (commitFailed cb) args s = Inl (ReferenceError ''error is not defined'', s)"
| "invoke noop args s = Inr s"
| "invoke v args s = Inl (TypeError ''not a function'', s)"

subsection \<open>\<^verbatim>\<open>_wait\<close> and \<^verbatim>\<open>_exec\<close>\<close>

definition exec :: "string \<Rightarrow> kont \<Rightarrow> state \<Rightarrow> result" where
  "exec sql k s = Inr (emit (Exec sql k) s)"

text \<open>
  The callbacks \<^verbatim>\<open>beginTransaction\<close>, \<^verbatim>\<open>commit\<close> and \<^verbatim>\<open>rollback\<close> give to \<^verbatim>\<open>_wait\<close>
  (lines 153, 127, 144). \<^verbatim>\<open>check\<close> calls \<^verbatim>\<open>callback()\<close> with no argument, so their
  parameter \<^verbatim>\<open>err\<close> is \<^verbatim>\<open>undefined\<close> and the statements guarded by \<^verbatim>\<open>if (err)\<close> at
  lines 128, 145 and 154 do not run: each callback issues its command.
\<close>

fun waited :: "waiter \<Rightarrow> nat \<Rightarrow> val \<Rightarrow> state \<Rightarrow> result" where
  "waited BeginW tx callback s = exec ''BEGIN;'' (ExecDone BeginW tx callback) s"
| "waited CommitW tx cb s = exec ''COMMIT;'' (ExecDone CommitW tx cb) s"
| "waited RollbackW tx cb s = exec ''ROLLBACK;'' (ExecDone RollbackW tx cb) s"

text \<open>The delay \<^verbatim>\<open>check\<close> passes to \<^verbatim>\<open>setTimeout\<close> (line 69), in milliseconds.\<close>

definition poll_delay :: nat where
  "poll_delay = 1"

text \<open>\<^verbatim>\<open>check\<close> (lines 65-71) and \<^verbatim>\<open>_wait\<close> (lines 64-73), which calls it once.\<close>

definition check :: "waiter \<Rightarrow> nat \<Rightarrow> val \<Rightarrow> state \<Rightarrow> result" where
  "check w tx cb s =
     (if lock s = 0 then waited w tx cb s
      else Inr (emit (SetTimeout (Check w tx cb) poll_delay) s))"

definition wait :: "waiter \<Rightarrow> nat \<Rightarrow> val \<Rightarrow> state \<Rightarrow> result" where
  "wait w tx cb s = check w tx cb s"

subsection \<open>\<^verbatim>\<open>beginTransaction\<close>, \<^verbatim>\<open>_runQueue\<close>, \<^verbatim>\<open>commit\<close> and \<^verbatim>\<open>rollback\<close>\<close>

text \<open>
  Lines 98-160. With a current transaction the call is queued with its \<^verbatim>\<open>arguments\<close>.
  Otherwise a new activation starts: \<^verbatim>\<open>finished = false\<close>, the connection object becomes
  the current transaction, its \<^verbatim>\<open>commit\<close> and \<^verbatim>\<open>rollback\<close> are assigned the closures of
  this activation, and \<^verbatim>\<open>_wait\<close> is entered.
\<close>

definition beginTransaction :: "val list \<Rightarrow> state \<Rightarrow> result" where
  "beginTransaction arguments s =
     (if \<not> nullish (currentTransaction s) then
        Inr (s\<lparr>queue := queue s @ [Transaction arguments]\<rparr>)
      else
        let tx = begun s;
            callback = arg arguments 0;
            s1 = s\<lparr>begun := Suc tx, finished := finished s - {tx},
                   currentTransaction := Tr, bound := Some tx\<rparr>
        in wait BeginW tx callback s1)"

text \<open>\<^verbatim>\<open>item.object[item.method].apply(item.object, item.args)\<close> (line 90). For a
  transaction entry this is \<^verbatim>\<open>beginTransaction\<close>; for a method entry it is a method of
  the driver, which starts the operation and returns.\<close>

fun apply_item :: "item \<Rightarrow> state \<Rightarrow> result" where
  "apply_item (Transaction args) s = beginTransaction args s"
| "apply_item (Method locking obj name args) s = Inr (emit (Apply obj name args) s)"

fun is_lock :: "item \<Rightarrow> bool" where
  "is_lock (Method locking obj name args) = locking"
| "is_lock (Transaction args) = False"

fun is_transaction :: "item \<Rightarrow> bool" where
  "is_transaction (Transaction args) = True"
| "is_transaction (Method locking obj name args) = False"

text \<open>\<^verbatim>\<open>_runQueue\<close> (lines 83-96).\<close>

function runQueue :: "state \<Rightarrow> result" where
  "runQueue s =
     (case queue s of
        [] \<Rightarrow> Inr s
      | item # rest \<Rightarrow>
          (case apply_item item
                  (if is_lock item then s\<lparr>queue := rest, lock := lock s + 1\<rparr>
                   else s\<lparr>queue := rest\<rparr>) of
             Inl x \<Rightarrow> Inl x
           | Inr s' \<Rightarrow> if is_transaction item then Inr s' else runQueue s'))"
  by pat_completeness auto
termination
proof (relation "measure (\<lambda>s. length (queue s))")
  show "wf (measure (\<lambda>s. length (queue s)))" by simp
next
  fix s :: state and item rest s'
  assume q: "queue s = item # rest"
    and a: "apply_item item
              (if is_lock item then s\<lparr>queue := rest, lock := lock s + 1\<rparr>
               else s\<lparr>queue := rest\<rparr>) = Inr s'"
    and t: "\<not> is_transaction item"
  from t obtain l obj name args where i: "item = Method l obj name args"
    by (cases item) auto
  from a i have "queue s' = rest"
    by (auto simp: emit_def split: if_splits)
  with q show "(s', s) \<in> measure (\<lambda>s. length (queue s))" by simp
qed

declare runQueue.simps [simp del]

text \<open>\<^verbatim>\<open>finishTransaction\<close> (lines 116-121) of activation \<open>tx\<close>.\<close>

definition finishTransaction :: "nat \<Rightarrow> val \<Rightarrow> val \<Rightarrow> state \<Rightarrow> result" where
  "finishTransaction tx e cb1 s =
     and_then (runQueue (s\<lparr>finished := insert tx (finished s), currentTransaction := Null\<rparr>))
       (invoke cb1 [e])"

text \<open>\<^verbatim>\<open>tr.rollback\<close> (lines 142-150) and \<^verbatim>\<open>tr.commit\<close> (lines 123-140) as assigned by
  activation \<open>tx\<close>.\<close>

definition rollback :: "nat \<Rightarrow> val \<Rightarrow> state \<Rightarrow> result" where
  "rollback tx cb s =
     (if tx \<in> finished s then
        invoke cb [ErrorObj ''Transaction is already finished and cannot rollback().''] s
      else wait RollbackW tx cb s)"

definition commit :: "nat \<Rightarrow> val \<Rightarrow> state \<Rightarrow> result" where
  "commit tx cb s =
     (if tx \<in> finished s then
        invoke cb [ErrorObj ''Transaction is already commit and cannot do commit().''] s
      else wait CommitW tx cb s)"

text \<open>
  A call \<^verbatim>\<open>tr.rollback(cb)\<close> or \<^verbatim>\<open>tr.commit(cb)\<close> on the handle: the property is read
  from the connection object at the time of the call, so it is the closure of the
  activation that assigned it last. Before the first activation the property is the
  driver's own; the wrapper assigned none, and the model has the call throw.
\<close>

definition tr_rollback :: "val \<Rightarrow> state \<Rightarrow> result" where
  "tr_rollback cb s =
     (case bound s of
        None \<Rightarrow> Inl (TypeError ''tr.rollback is not a function'', s)
      | Some tx \<Rightarrow> rollback tx cb s)"

definition tr_commit :: "val \<Rightarrow> state \<Rightarrow> result" where
  "tr_commit cb s =
     (case bound s of
        None \<Rightarrow> Inl (TypeError ''tr.commit is not a function'', s)
      | Some tx \<Rightarrow> commit tx cb s)"

subsection \<open>What timers and the driver call back\<close>

text \<open>
  A timer calls \<^verbatim>\<open>check\<close>; the driver calls the function \<^verbatim>\<open>_exec\<close> was given, with the
  error of the command or none: lines 155-158 for BEGIN, 129-138 for COMMIT, 146-148 for
  ROLLBACK.
\<close>

fun resume :: "kont \<Rightarrow> val list \<Rightarrow> state \<Rightarrow> result" where
  "resume (Check w tx cb) args s = check w tx cb s"
| "resume (ExecDone BeginW tx callback) args s =
     (if truthy (arg args 0) then invoke callback [arg args 0] s
      else invoke callback [Null, Tr] s)"
| "resume (ExecDone CommitW tx cb) args s =
     (if truthy (arg args 0) then tr_rollback (commitFailed cb) s
      else finishTransaction tx Null cb s)"
| "resume (ExecDone RollbackW tx cb) args s = finishTransaction tx (arg args 0) cb s"

subsection \<open>\<^verbatim>\<open>wrapDbMethod\<close>\<close>

definition lockMethods :: "string list" where
  "lockMethods = [''exec'', ''run'', ''get'', ''all'', ''each'', ''map'', ''finalize'', ''reset'']"

text \<open>\<^verbatim>\<open>args[i] instanceof Function\<close>, where \<open>i\<close> may be negative or past the end.\<close>

definition fn_at :: "val list \<Rightarrow> int \<Rightarrow> bool" where
  "fn_at args i = (0 \<le> i \<and> i < int (length args) \<and> is_fn (args ! nat i))"

text \<open>Lines 192-204: the completion callbacks added to the arguments of \<^verbatim>\<open>each\<close>.\<close>

definition each_args :: "val list \<Rightarrow> val list" where
  "each_args args =
     (let n = int (length args) in
      if n \<le> 2 \<or> (\<not> fn_at args (n - 1) \<and> \<not> fn_at args (n - 2)) then
        args @ [dummyCallback, dummyCallback]
      else if fn_at args (n - 1) \<and> \<not> fn_at args (n - 2) then args @ [dummyCallback]
      else args)"

text \<open>Lines 207-222: \<^verbatim>\<open>newCallback\<close> takes the place of a trailing function, or is
  appended with \<^verbatim>\<open>dummyCallback\<close> as its original when there is none.\<close>

definition hijack :: "val list \<Rightarrow> val list" where
  "hijack args =
     (if length args > 0 \<and> fn_at args (int (length args) - 1) then
        args[length args - 1 := newCallback (args ! (length args - 1))]
      else args @ [newCallback dummyCallback])"

text \<open>
  The function \<^verbatim>\<open>wrapDbMethod(transactionDatabase, object, method)\<close> returns (lines
  186-242), called with \<open>arguments\<close>. The driver's method starts the operation and returns;
  the driver calls the callbacks it was given later.
\<close>

definition wrapDbMethod :: "target \<Rightarrow> string \<Rightarrow> val list \<Rightarrow> state \<Rightarrow> result" where
  "wrapDbMethod obj name arguments s =
     (let locking = (name \<in> set lockMethods);
          args = (if locking then
                    hijack (if name = ''each'' then each_args arguments else arguments)
                  else arguments)
      in if nullish (currentTransaction s) then
           Inr (emit (Apply obj name args) (if locking then s\<lparr>lock := lock s + 1\<rparr> else s))
         else
           Inr (s\<lparr>queue := queue s @ [Method locking obj name args]\<rparr>))"

text \<open>
  The values an application can pass to a wrapped method: data, the handle and functions
  of its own. The closures the wrapper creates are handed to the driver and to timers
  only.
\<close>

fun caller_value :: "val \<Rightarrow> bool" where
  "caller_value dummyCallback = False"
| "caller_value (newCallback f) = False"
| "caller_value (commitFailed cb) = False"
| "caller_value noop = False"
| "caller_value v = True"

subsection \<open>The listener of the connection's error event\<close>

text \<open>
  Lines 42-47 register a listener on \<^verbatim>\<open>this.db\<close>. The listener is a \<^verbatim>\<open>function\<close>
  expression, so its \<^verbatim>\<open>this\<close> is whatever it is called on, and an event emitter calls
  its listeners on itself. The wrapper's \<^verbatim>\<open>currentTransaction\<close> is a property of the
  wrapper; the file assigns no property of that name to an underlying object.
\<close>

datatype receiver = Wrapper | Underlying target

definition this_currentTransaction :: "receiver \<Rightarrow> state \<Rightarrow> val" where
  "this_currentTransaction this s =
     (case this of Wrapper \<Rightarrow> currentTransaction s | Underlying obj \<Rightarrow> Undefined)"

definition errorListener :: "receiver \<Rightarrow> state \<Rightarrow> result" where
  "errorListener this s =
     (if \<not> nullish (this_currentTransaction this s) then tr_rollback noop s else Inr s)"

text \<open>The connection emits \<^verbatim>\<open>'error'\<close>: its listeners run with the connection as \<^verbatim>\<open>this\<close>.\<close>

definition connection_error :: "state \<Rightarrow> result" where
  "connection_error s = errorListener (Underlying Connection) s"

subsection \<open>Runs\<close>

text \<open>
  What can happen to a wrapper, one callback at a time: the application calls a wrapped
  method, \<^verbatim>\<open>beginTransaction\<close>, or \<^verbatim>\<open>commit\<close> or \<^verbatim>\<open>rollback\<close> on the handle; the driver
  calls a function it was given; a timer or the driver calls one of the wrapper's
  continuations; the connection emits an error.
\<close>

datatype action =
    CallMethod target string "val list"
  | BeginTransaction "val list"
  | TrCommit val
  | TrRollback val
  | Complete val "val list"
  | Resume kont "val list"
  | ConnectionError

fun step :: "action \<Rightarrow> state \<Rightarrow> result" where
  "step (CallMethod obj name args) s = wrapDbMethod obj name args s"
| "step (BeginTransaction args) s = beginTransaction args s"
| "step (TrCommit cb) s = tr_commit cb s"
| "step (TrRollback cb) s = tr_rollback cb s"
| "step (Complete f args) s = invoke f args s"
| "step (Resume k args) s = resume k args s"
| "step ConnectionError s = connection_error s"

text \<open>A run stops at the first exception: nothing catches it.\<close>

fun run :: "action list \<Rightarrow> state \<Rightarrow> result" where
  "run [] s = Inr s"
| "run (a # as) s = and_then (step a s) (run as)"

text \<open>
  A run in which \<^verbatim>\<open>commit\<close> and \<^verbatim>\<open>rollback\<close> are both called on the first transaction
  before either command completes, with a second \<^verbatim>\<open>beginTransaction\<close> waiting in the
  queue. Both calls pass the test of \<^verbatim>\<open>finished\<close> (lines 124 and 143), which only a
  completion sets. The COMMIT completes and its drain starts the second transaction; the
  ROLLBACK completes after it, with the driver's error; then the BEGIN of the second
  transaction completes.
\<close>

definition late_rollback_run :: "action list" where
  "late_rollback_run =
     [BeginTransaction [UserFn 0], Resume (ExecDone BeginW 0 (UserFn 0)) [Null],
      BeginTransaction [UserFn 1], TrCommit (UserFn 2), TrRollback (UserFn 3),
      Resume (ExecDone CommitW 0 (UserFn 2)) [Null],
      Resume (ExecDone RollbackW 0 (UserFn 3)) [ErrorObj ''no transaction is active''],
      Resume (ExecDone BeginW 1 (UserFn 1)) [Null]]"

subsection \<open>Reading a queue\<close>

text \<open>The calls a drain makes for a run of method entries, in order, and the number of
  \<^verbatim>\<open>'lock'\<close> entries among them.\<close>

fun applies :: "item list \<Rightarrow> event list" where
  "applies [] = []"
| "applies (Method l obj name args # xs) = Apply obj name args # applies xs"
| "applies (Transaction args # xs) = applies xs"

definition locks :: "item list \<Rightarrow> int" where
  "locks xs = int (length (filter is_lock xs))"

section \<open>The constructor\<close>

text \<open>
  The constructor (lines 23-47) is embedded over JavaScript values and a heap of objects.
  A value is \<^verbatim>\<open>undefined\<close>, \<^verbatim>\<open>null\<close>, another primitive (by its printed form), a function
  of the language or a closure the constructor creates (\<open>JBuiltin\<close>; calling one returns),
  or a reference to an object. The objects are the new object \<^verbatim>\<open>this\<close> (\<open>This\<close>),
  \<^verbatim>\<open>TransactionDatabase.prototype\<close> (\<open>ProtoTD\<close>), \<^verbatim>\<open>Object.prototype\<close> (\<open>ProtoObject\<close>)
  and the objects of the host and the driver (\<open>Obj n\<close>). An object has properties, each a
  value or an accessor, and is a function when it has \<open>code\<close>.

  Code of the host and the driver is opaque. It is identified by a number, and the
  parameter \<open>host\<close> of the embedding gives, for the number, the receiver and the heap, what
  a call does: it throws, or it returns a value and the heap as it leaves it. So a callee
  and a getter may change any object, the prototypes among them.
\<close>

datatype ref = This | ProtoTD | ProtoObject | Obj nat

datatype jsv =
    JUndefined
  | JNull
  | JPrim string
  | JBuiltin string
  | JRef ref

datatype slot = Data jsv | Accessor nat

record obj =
  props :: "(string \<times> slot) list"
  code :: "nat option"






























section \<open>Properties of the wrapper's functions\<close>

subsection \<open>The drain\<close>

lemma state_of_simps [simp]: "state_of (Inr s) = s" "state_of (Inl (e, s)) = s"
  by (simp_all add: state_of_def)

lemma runQueue_Nil: "queue s = [] \<Longrightarrow> runQueue s = Inr s"
  by (subst runQueue.simps) simp

text \<open>The equations that evaluate a run from the idle state.\<close>

lemmas run_defs =
  idle_def and_then_def beginTransaction_def wait_def check_def exec_def emit_def
  nullish_def truthy_def arg_def tr_commit_def tr_rollback_def commit_def rollback_def
  finishTransaction_def runQueue_Nil poll_delay_def connection_error_def errorListener_def
  this_currentTransaction_def

lemma runQueue_Transaction:
  "queue s = Transaction a # post \<Longrightarrow> runQueue s = beginTransaction a (s\<lparr>queue := post\<rparr>)"
  by (subst runQueue.simps) (simp split: sum.splits)

lemma runQueue_Method:
  "queue s = Method l obj name a # rest \<Longrightarrow>
   runQueue s = runQueue (s\<lparr>queue := rest, lock := lock s + (if l then 1 else 0),
                              trace := trace s @ [Apply obj name a]\<rparr>)"
  by (subst runQueue.simps) (simp add: emit_def)

lemma runQueue_prefix:
  "\<forall>i\<in>set pre. \<not> is_transaction i \<Longrightarrow> queue s = pre @ rest \<Longrightarrow>
   runQueue s = runQueue (s\<lparr>queue := rest, lock := lock s + locks pre,
                              trace := trace s @ applies pre\<rparr>)"
proof (induction pre arbitrary: s)
  case Nil
  then have "rest = queue s" by simp
  then show ?case by (simp add: locks_def)
next
  case (Cons x pre)
  from Cons.prems(1) obtain l obj name a where x: "x = Method l obj name a"
    by (cases x) auto
  let ?s1 = "s\<lparr>queue := pre @ rest, lock := lock s + (if l then 1 else 0),
                 trace := trace s @ [Apply obj name a]\<rparr>"
  have "runQueue s = runQueue ?s1"
    using Cons.prems(2) x by (simp add: runQueue_Method)
  also have "\<dots> = runQueue (?s1\<lparr>queue := rest, lock := lock ?s1 + locks pre,
                                   trace := trace ?s1 @ applies pre\<rparr>)"
    using Cons.prems(1) by (intro Cons.IH) simp_all
  finally show ?case
    using x by (simp add: locks_def add.assoc)
qed

lemma begin_fresh:
  "nullish (currentTransaction s) \<Longrightarrow>
   beginTransaction args s =
     Inr (s\<lparr>begun := Suc (begun s), finished := finished s - {begun s},
            currentTransaction := Tr, bound := Some (begun s),
            trace := trace s @
              [if lock s = 0 then Exec ''BEGIN;'' (ExecDone BeginW (begun s) (arg args 0))
               else SetTimeout (Check BeginW (begun s) (arg args 0)) poll_delay]\<rparr>)"
  by (simp add: beginTransaction_def wait_def check_def exec_def emit_def Let_def)

lemma begin_queued:
  "\<not> nullish (currentTransaction s) \<Longrightarrow>
   beginTransaction args s = Inr (s\<lparr>queue := queue s @ [Transaction args]\<rparr>)"
  by (simp add: beginTransaction_def)

lemma runQueue_methods_only:
  assumes "\<forall>i\<in>set pre. \<not> is_transaction i" and "queue s = pre"
  shows "runQueue s = Inr (s\<lparr>queue := [], lock := lock s + locks pre,
                             trace := trace s @ applies pre\<rparr>)"
proof -
  from assms(2) have "queue s = pre @ []" by simp
  from runQueue_prefix [OF assms(1) this] show ?thesis
    by (simp add: runQueue_Nil)
qed

lemma runQueue_reaches_begin:
  assumes "\<forall>i\<in>set pre. \<not> is_transaction i" and "queue s = pre @ Transaction a # post"
  shows "runQueue s = beginTransaction a (s\<lparr>queue := post, lock := lock s + locks pre,
                                             trace := trace s @ applies pre\<rparr>)"
proof -
  let ?s1 = "s\<lparr>queue := Transaction a # post, lock := lock s + locks pre,
                 trace := trace s @ applies pre\<rparr>"
  have e: "?s1\<lparr>queue := post\<rparr> =
      s\<lparr>queue := post, lock := lock s + locks pre, trace := trace s @ applies pre\<rparr>"
    by simp
  have "runQueue s = runQueue ?s1"
    by (rule runQueue_prefix [OF assms])
  also have "\<dots> = beginTransaction a (?s1\<lparr>queue := post\<rparr>)"
    by (rule runQueue_Transaction) simp
  finally show ?thesis
    unfolding e .
qed

lemma locks_nonneg: "0 \<le> locks xs"
  by (simp add: locks_def)

lemma runQueue_cases:
  obtains (drained) pre where
      "queue s = pre" and "\<forall>i\<in>set pre. \<not> is_transaction i" and
      "runQueue s = Inr (s\<lparr>queue := [], lock := lock s + locks pre,
                           trace := trace s @ applies pre\<rparr>)"
  | (began) pre a post where
      "queue s = pre @ Transaction a # post" and "\<forall>i\<in>set pre. \<not> is_transaction i" and
      "runQueue s = beginTransaction a (s\<lparr>queue := post, lock := lock s + locks pre,
                                          trace := trace s @ applies pre\<rparr>)"
proof -
  let ?P = "\<lambda>i. \<not> is_transaction i"
  let ?pre = "takeWhile ?P (queue s)"
  have pre: "\<forall>i\<in>set ?pre. \<not> is_transaction i"
    by (auto dest: set_takeWhileD)
  show thesis
  proof (cases "dropWhile ?P (queue s)")
    case Nil
    then have q: "queue s = ?pre"
      by (metis append_Nil2 takeWhile_dropWhile_id)
    from q pre runQueue_methods_only [OF pre q] show thesis
      by (rule drained)
  next
    case (Cons x post)
    then have "\<not> ?P x"
      using hd_dropWhile [of ?P "queue s"] by auto
    then obtain a where "x = Transaction a"
      by (cases x) auto
    with Cons have q: "queue s = ?pre @ Transaction a # post"
      by (metis takeWhile_dropWhile_id)
    from q pre runQueue_reaches_begin [OF pre q] show thesis
      by (rule began)
  qed
qed

lemma beginTransaction_returns: "\<exists>s'. beginTransaction args s = Inr s'"
  by (simp add: beginTransaction_def wait_def check_def exec_def Let_def split: waiter.splits)

lemma runQueue_returns: "\<exists>s'. runQueue s = Inr s'"
  by (cases s rule: runQueue_cases) (simp_all add: beginTransaction_returns)

lemma runQueue_outcome:
  assumes "nullish (currentTransaction s)"
  shows "\<exists>s'. runQueue s = Inr s' \<and>
           (queue s' = [] \<or>
            (\<exists>pre a. (\<forall>i\<in>set pre. \<not> is_transaction i) \<and>
                     queue s = pre @ Transaction a # queue s'))"
proof (cases s rule: runQueue_cases)
  case (drained pre)
  then show ?thesis by simp
next
  case (began pre a post)
  let ?s1 = "s\<lparr>queue := post, lock := lock s + locks pre, trace := trace s @ applies pre\<rparr>"
  from assms have "nullish (currentTransaction ?s1)" by simp
  from begin_fresh [OF this, of a] began show ?thesis
    by auto
qed

text \<open>
  Claim C2. When a transaction finishes (\<^verbatim>\<open>finishTransaction\<close> has cleared
  \<^verbatim>\<open>currentTransaction\<close>), one call of \<^verbatim>\<open>_runQueue\<close> returns, and it has walked the queue
  from its head. Where the queue holds method entries only, each was applied to its
  object in queue order (the lock counted up for each \<^verbatim>\<open>'lock'\<close> entry) and the queue is
  empty. Where \<open>Transaction a\<close> is the first transaction entry, the method entries
  \<open>pre\<close> before it were applied in order, \<^verbatim>\<open>beginTransaction\<close> ran with the entry's
  arguments and started a new activation (its BEGIN issued, or its poll scheduled while
  the lock is held), and the entries \<open>post\<close> behind it are the queue, none of them applied.
  So, whatever the queue, the drain returns with the queue empty or with what stood
  behind the first transaction entry.
\<close>

theorem runQueue_drain:
  assumes "nullish (currentTransaction s)" and "\<forall>i\<in>set pre. \<not> is_transaction i"
  shows "(queue s = pre \<longrightarrow>
            runQueue s = Inr (s\<lparr>queue := [], lock := lock s + locks pre,
                                 trace := trace s @ applies pre\<rparr>))
       \<and> (queue s = pre @ Transaction a # post \<longrightarrow>
            runQueue s = Inr (s\<lparr>queue := post, lock := lock s + locks pre,
                 begun := Suc (begun s), finished := finished s - {begun s},
                 currentTransaction := Tr, bound := Some (begun s),
                 trace := trace s @ applies pre @
                   [if lock s + locks pre = 0
                    then Exec ''BEGIN;'' (ExecDone BeginW (begun s) (arg a 0))
                    else SetTimeout (Check BeginW (begun s) (arg a 0)) poll_delay]\<rparr>))
       \<and> (\<exists>s'. runQueue s = Inr s' \<and>
            (queue s' = [] \<or>
             (\<exists>before args. (\<forall>i\<in>set before. \<not> is_transaction i) \<and>
                     queue s = before @ Transaction args # queue s')))"
  using assms runQueue_outcome [OF assms(1)]
  by (auto simp: runQueue_methods_only runQueue_reaches_begin begin_fresh)

text \<open>The queue \<^verbatim>\<open>[opA, opB, begin2, opC]\<close>: \<^verbatim>\<open>opA\<close> and \<^verbatim>\<open>opB\<close> are applied, the second
  transaction begins (it polls, \<^verbatim>\<open>opA\<close> holding the lock), and \<^verbatim>\<open>opC\<close> stays queued.\<close>

theorem runQueue_drain_witness:
  "runQueue (idle\<lparr>queue := [Method True Connection ''run'' [Str ''a'', newCallback (UserFn 1)],
                              Method False Connection ''configure'' [Str ''b''],
                              Transaction [UserFn 2],
                              Method True Connection ''all'' [Str ''c'', newCallback (UserFn 3)]]\<rparr>)
   = Inr (idle\<lparr>queue := [Method True Connection ''all'' [Str ''c'', newCallback (UserFn 3)]],
               lock := 1, begun := 1, currentTransaction := Tr, bound := Some 0,
               trace := [Apply Connection ''run'' [Str ''a'', newCallback (UserFn 1)],
                         Apply Connection ''configure'' [Str ''b''],
                         SetTimeout (Check BeginW 0 (UserFn 2)) 1]\<rparr>)
 \<and> runQueue (idle\<lparr>queue := [Method False Connection ''configure'' [Str ''b''],
                              Method True Connection ''run'' [Str ''a'', newCallback (UserFn 1)]]\<rparr>)
   = Inr (idle\<lparr>lock := 1,
               trace := [Apply Connection ''configure'' [Str ''b''],
                         Apply Connection ''run'' [Str ''a'', newCallback (UserFn 1)]]\<rparr>)"
  using runQueue_drain [of
      "idle\<lparr>queue := [Method False Connection ''configure'' [Str ''b''],
                       Method True Connection ''run'' [Str ''a'', newCallback (UserFn 1)]]\<rparr>"
      "[Method False Connection ''configure'' [Str ''b''],
        Method True Connection ''run'' [Str ''a'', newCallback (UserFn 1)]]"]
    runQueue_drain [of
      "idle\<lparr>queue := [Method True Connection ''run'' [Str ''a'', newCallback (UserFn 1)],
                              Method False Connection ''configure'' [Str ''b''],
                              Transaction [UserFn 2],
                              Method True Connection ''all'' [Str ''c'', newCallback (UserFn 3)]]\<rparr>"
      "[Method True Connection ''run'' [Str ''a'', newCallback (UserFn 1)],
        Method False Connection ''configure'' [Str ''b'']]"
      "[UserFn 2]"
      "[Method True Connection ''all'' [Str ''c'', newCallback (UserFn 3)]]"]
  by (simp add: idle_def nullish_def locks_def poll_delay_def arg_def)

subsection \<open>The lock counter\<close>

lemma invoke_lock: "0 \<le> lock s \<Longrightarrow> 0 \<le> lock (state_of (invoke f args s))"
  by (induction f args s rule: invoke.induct) (auto simp: emit_def)

lemma invoke_queue: "queue (state_of (invoke f args s)) = queue s"
  by (induction f args s rule: invoke.induct) (auto simp: emit_def)

lemma invoke_finished: "finished (state_of (invoke f args s)) = finished s"
  by (induction f args s rule: invoke.induct) (auto simp: emit_def)

lemma check_eq:
  "check w tx cb s =
     Inr (emit (if lock s = 0
                then Exec (case w of BeginW \<Rightarrow> ''BEGIN;'' | CommitW \<Rightarrow> ''COMMIT;''
                                   | RollbackW \<Rightarrow> ''ROLLBACK;'') (ExecDone w tx cb)
                else SetTimeout (Check w tx cb) poll_delay) s)"
  by (cases w) (simp_all add: check_def exec_def)

lemma check_lock: "lock (state_of (check w tx cb s)) = lock s"
  by (simp add: check_eq emit_def)

lemma check_queue: "queue (state_of (check w tx cb s)) = queue s"
  by (simp add: check_eq emit_def)

lemma beginTransaction_lock: "lock (state_of (beginTransaction args s)) = lock s"
  by (simp add: beginTransaction_def wait_def check_lock Let_def)

lemma beginTransaction_finished:
  "tx \<in> finished s \<Longrightarrow> tx < begun s \<Longrightarrow> tx \<in> finished (state_of (beginTransaction args s))"
  by (simp add: beginTransaction_def wait_def check_eq emit_def Let_def)

lemma runQueue_lock: "lock s \<le> lock (state_of (runQueue s))"
  using locks_nonneg by (cases s rule: runQueue_cases) (simp_all add: beginTransaction_lock)

lemma runQueue_finished:
  "tx \<in> finished s \<Longrightarrow> tx < begun s \<Longrightarrow> tx \<in> finished (state_of (runQueue s))"
  by (cases s rule: runQueue_cases) (simp_all add: beginTransaction_finished)

lemma and_then_lock:
  assumes "0 \<le> lock (state_of r)" and "\<And>s'. 0 \<le> lock s' \<Longrightarrow> 0 \<le> lock (state_of (f s'))"
  shows "0 \<le> lock (state_of (and_then r f))"
  using assms by (cases r) (auto simp: and_then_def)

lemma finishTransaction_lock:
  "0 \<le> lock s \<Longrightarrow> 0 \<le> lock (state_of (finishTransaction tx e cb1 s))"
  unfolding finishTransaction_def
proof (rule and_then_lock)
  let ?s0 = "s\<lparr>finished := insert tx (finished s), currentTransaction := Null\<rparr>"
  assume "0 \<le> lock s"
  then show "0 \<le> lock (state_of (runQueue ?s0))"
    using runQueue_lock [of ?s0] by simp
qed (rule invoke_lock)

lemma finishTransaction_finished:
  assumes "tx < begun s"
  shows "tx \<in> finished (state_of (finishTransaction tx e cb1 s))"
proof -
  let ?s0 = "s\<lparr>finished := insert tx (finished s), currentTransaction := Null\<rparr>"
  have "tx \<in> finished (state_of (runQueue ?s0))"
    using assms by (intro runQueue_finished) simp_all
  then show ?thesis
    unfolding finishTransaction_def
    by (cases "runQueue ?s0") (auto simp: and_then_def invoke_finished)
qed

lemma rollback_lock: "0 \<le> lock s \<Longrightarrow> 0 \<le> lock (state_of (rollback tx cb s))"
  by (simp add: rollback_def wait_def check_lock invoke_lock)

lemma commit_lock: "0 \<le> lock s \<Longrightarrow> 0 \<le> lock (state_of (commit tx cb s))"
  by (simp add: commit_def wait_def check_lock invoke_lock)

lemma tr_rollback_lock: "0 \<le> lock s \<Longrightarrow> 0 \<le> lock (state_of (tr_rollback cb s))"
  by (simp add: tr_rollback_def rollback_lock split: option.splits)

lemma tr_commit_lock: "0 \<le> lock s \<Longrightarrow> 0 \<le> lock (state_of (tr_commit cb s))"
  by (simp add: tr_commit_def commit_lock split: option.splits)

lemma resume_lock: "0 \<le> lock s \<Longrightarrow> 0 \<le> lock (state_of (resume k args s))"
  by (induction k args s rule: resume.induct)
    (simp_all add: check_lock invoke_lock tr_rollback_lock finishTransaction_lock)

lemma wrapDbMethod_lock: "0 \<le> lock s \<Longrightarrow> 0 \<le> lock (state_of (wrapDbMethod obj name args s))"
  by (simp add: wrapDbMethod_def emit_def Let_def)

lemma connection_error_eq: "connection_error s = Inr s"
  by (simp add: connection_error_def errorListener_def this_currentTransaction_def nullish_def)

lemma step_lock: "0 \<le> lock s \<Longrightarrow> 0 \<le> lock (state_of (step a s))"
  by (cases a)
    (simp_all add: wrapDbMethod_lock beginTransaction_lock tr_commit_lock tr_rollback_lock
      invoke_lock resume_lock connection_error_eq)

lemma run_lock: "0 \<le> lock s \<Longrightarrow> 0 \<le> lock (state_of (run acts s))"
proof (induction acts arbitrary: s)
  case Nil
  then show ?case by simp
next
  case (Cons a acts)
  show ?case
    unfolding run.simps
    by (rule and_then_lock) (use Cons in \<open>auto intro: step_lock\<close>)
qed

subsection \<open>Locking calls and their completion\<close>

lemma nat_pred: "nat (int n - 1) = n - Suc 0"
  by simp

lemma hijack_fn:
  "args \<noteq> [] \<Longrightarrow> is_fn (last args) \<Longrightarrow> hijack args = butlast args @ [newCallback (last args)]"
proof -
  assume a: "args \<noteq> []" and f: "is_fn (last args)"
  then have n: "nat (int (length args) - 1) = length args - 1"
    by simp
  from a have l: "args ! (length args - 1) = last args"
    by (simp add: last_conv_nth)
  from a have b: "args = butlast args @ [last args]"
    by simp
  have "args[length args - 1 := newCallback (last args)] = butlast args @ [newCallback (last args)]"
    using a by (metis b length_butlast list_update_length)
  with a f n l show ?thesis
    by (simp add: hijack_def fn_at_def)
qed

lemma hijack_no_fn:
  "\<not> (args \<noteq> [] \<and> is_fn (last args)) \<Longrightarrow> hijack args = args @ [newCallback dummyCallback]"
  by (cases "args = []") (auto simp: hijack_def fn_at_def last_conv_nth nat_pred)

lemma caller_fn: "caller_value v \<Longrightarrow> is_fn v \<Longrightarrow> \<exists>n. v = UserFn n"
  by (cases v) simp_all

lemma each_args_set: "set (each_args xs) \<subseteq> insert dummyCallback (set xs)"
  by (auto simp: each_args_def Let_def)

lemma hijack_shape:
  assumes "\<forall>v\<in>set xs. caller_value v \<or> v = dummyCallback"
  shows "\<exists>pre orig. hijack xs = pre @ [newCallback orig]
           \<and> (\<forall>v\<in>set pre. \<forall>g. v \<noteq> newCallback g)
           \<and> (orig = dummyCallback \<or> (\<exists>n. orig = UserFn n))"
proof (cases "xs \<noteq> [] \<and> is_fn (last xs)")
  case True
  then have h: "hijack xs = butlast xs @ [newCallback (last xs)]"
    by (simp add: hijack_fn)
  from True have "last xs \<in> set xs" by simp
  with assms True have o: "last xs = dummyCallback \<or> (\<exists>n. last xs = UserFn n)"
    by (auto dest: caller_fn)
  have "\<forall>v\<in>set (butlast xs). \<forall>g. v \<noteq> newCallback g"
    using assms by (auto dest!: in_set_butlastD)
  with h o show ?thesis by blast
next
  case False
  then have h: "hijack xs = xs @ [newCallback dummyCallback]"
    by (rule hijack_no_fn)
  have "\<forall>v\<in>set xs. \<forall>g. v \<noteq> newCallback g"
    using assms by auto
  with h show ?thesis by blast
qed

lemma wrapped_shape:
  assumes "\<forall>v\<in>set xs. caller_value v"
  shows "\<exists>pre orig. hijack (if name = ''each'' then each_args xs else xs) = pre @ [newCallback orig]
           \<and> (\<forall>v\<in>set pre. \<forall>g. v \<noteq> newCallback g)
           \<and> (orig = dummyCallback \<or> (\<exists>n. orig = UserFn n))"
proof (rule hijack_shape)
  show "\<forall>v\<in>set (if name = ''each'' then each_args xs else xs). caller_value v \<or> v = dummyCallback"
    using assms each_args_set [of xs] by auto
qed

lemma completion_decrements:
  assumes "orig = dummyCallback \<or> (\<exists>n. orig = UserFn n)" and "0 < lock t"
  shows "\<exists>t'. invoke (newCallback orig) a t = Inr t' \<and> lock t' = lock t - 1"
  using assms by (auto simp: emit_def)

lemma runQueue_one_lock:
  "runQueue (s\<lparr>queue := [Method True obj name ys]\<rparr>) =
     Inr (s\<lparr>queue := [], lock := lock s + 1, trace := trace s @ [Apply obj name ys]\<rparr>)"
  using runQueue_methods_only [where pre = "[Method True obj name ys]" and s = "s\<lparr>queue := [Method True obj name ys]\<rparr>"]
  by (simp add: locks_def)

lemma fn_at_last: "fn_at xs (int (length xs) - 1) = (xs \<noteq> [] \<and> is_fn (last xs))"
  by (cases "xs = []") (simp_all add: fn_at_def last_conv_nth nat_pred)

lemma fn_at_before_last:
  "fn_at xs (int (length xs) - 2) = (2 \<le> length xs \<and> is_fn (xs ! (length xs - 2)))"
proof (cases "2 \<le> length xs")
  case True
  then have "nat (int (length xs) - 2) = length xs - 2"
    by simp
  with True show ?thesis
    by (simp add: fn_at_def)
next
  case False
  then show ?thesis by (simp add: fn_at_def)
qed

lemma each_args_cases:
  "(length xs \<le> 2 \<or> (\<not> is_fn (last xs) \<and> \<not> is_fn (xs ! (length xs - 2))) \<longrightarrow>
      each_args xs = xs @ [dummyCallback, dummyCallback])
 \<and> (2 < length xs \<and> is_fn (last xs) \<and> \<not> is_fn (xs ! (length xs - 2)) \<longrightarrow>
      each_args xs = xs @ [dummyCallback])
 \<and> (2 < length xs \<and> is_fn (xs ! (length xs - 2)) \<longrightarrow> each_args xs = xs)"
  by (cases "xs = []") (auto simp: each_args_def Let_def fn_at_last fn_at_before_last)

lemma wrapped_each_cases:
  "(length xs \<le> 2 \<or> (\<not> is_fn (last xs) \<and> \<not> is_fn (xs ! (length xs - 2))) \<longrightarrow>
      hijack (each_args xs) = xs @ [dummyCallback, newCallback dummyCallback])
 \<and> (2 < length xs \<and> is_fn (last xs) \<and> \<not> is_fn (xs ! (length xs - 2)) \<longrightarrow>
      hijack (each_args xs) = xs @ [newCallback dummyCallback])
 \<and> (2 < length xs \<and> is_fn (last xs) \<and> is_fn (xs ! (length xs - 2)) \<longrightarrow>
      hijack (each_args xs) = butlast xs @ [newCallback (last xs)])
 \<and> (2 < length xs \<and> \<not> is_fn (last xs) \<and> is_fn (xs ! (length xs - 2)) \<longrightarrow>
      hijack (each_args xs) = xs @ [newCallback dummyCallback])"
proof -
  have a: "hijack (xs @ [dummyCallback, dummyCallback]) = xs @ [dummyCallback, newCallback dummyCallback]"
    using hijack_fn [of "xs @ [dummyCallback, dummyCallback]"] by (simp add: butlast_append)
  have b: "hijack (xs @ [dummyCallback]) = xs @ [newCallback dummyCallback]"
    using hijack_fn [of "xs @ [dummyCallback]"] by simp
  have c: "2 < length xs \<Longrightarrow> is_fn (last xs) \<Longrightarrow> hijack xs = butlast xs @ [newCallback (last xs)]"
    using hijack_fn [of xs] by (cases "xs = []") auto
  have d: "\<not> is_fn (last xs) \<Longrightarrow> hijack xs = xs @ [newCallback dummyCallback]"
    using hijack_no_fn [of xs] by auto
  from each_args_cases [of xs] a b c d show ?thesis
    by auto
qed

text \<open>
  Claim C5. From a state whose lock counter is not negative, whatever the application, the
  driver and the timers do next, the counter is never negative: not after any number of
  actions, nor in the state an exception leaves behind. A completion through
  \<^verbatim>\<open>newCallback\<close> takes exactly one from the counter before it calls the original
  callback; when that would take the counter below zero it changes nothing and throws
  the error \<^verbatim>\<open>Locks are not balanced\<close>, which no function of the file catches. And
  every call of a locking method hands the driver exactly one \<^verbatim>\<open>newCallback\<close>, as the
  last argument, over the caller's function or \<^verbatim>\<open>dummyCallback\<close>: the counter is
  raised by one when the call is applied, at once or by the drain, and the completion
  takes that one back. The last conjuncts say which argument it is: \<^verbatim>\<open>newCallback\<close>
  replaces a trailing function and is appended otherwise, and for \<^verbatim>\<open>each\<close> it is
  behind the row callback, which lines 192-204 leave as it is.
\<close>

theorem lock_never_negative:
  assumes "0 \<le> lock s"
  shows "0 \<le> lock (state_of (run acts s))
       \<and> (lock s = 0 \<longrightarrow>
            invoke (newCallback f) args s = Inl (Error ''Locks are not balanced'', s))
       \<and> (0 < lock s \<longrightarrow>
            invoke (newCallback f) args s = invoke f args (s\<lparr>lock := lock s - 1\<rparr>)
          \<and> invoke (newCallback (UserFn n)) args s =
              Inr (emit (Called n args) (s\<lparr>lock := lock s - 1\<rparr>))
          \<and> invoke (newCallback dummyCallback) [] s = Inr (s\<lparr>lock := lock s - 1\<rparr>))
       \<and> (name \<in> set lockMethods \<and> (\<forall>v\<in>set xs. caller_value v) \<longrightarrow>
            (\<exists>pre orig.
                hijack (if name = ''each'' then each_args xs else xs) = pre @ [newCallback orig]
              \<and> (\<forall>v\<in>set pre. \<forall>g. v \<noteq> newCallback g)
              \<and> (orig = dummyCallback \<or> (\<exists>k. orig = UserFn k))
              \<and> (nullish (currentTransaction s) \<longrightarrow>
                   wrapDbMethod obj name xs s =
                     Inr (emit (Apply obj name (pre @ [newCallback orig]))
                            (s\<lparr>lock := lock s + 1\<rparr>))
                 \<and> lock (state_of (and_then (wrapDbMethod obj name xs s)
                                      (invoke (newCallback orig) a))) = lock s)
              \<and> (\<not> nullish (currentTransaction s) \<longrightarrow>
                   wrapDbMethod obj name xs s =
                     Inr (s\<lparr>queue := queue s @
                            [Method True obj name (pre @ [newCallback orig])]\<rparr>))
              \<and> (\<forall>t. 0 < lock t \<longrightarrow>
                   (\<exists>t'. invoke (newCallback orig) a t = Inr t' \<and> lock t' = lock t - 1))))
       \<and> runQueue (s\<lparr>queue := [Method True obj name ys]\<rparr>) =
            Inr (s\<lparr>queue := [], lock := lock s + 1, trace := trace s @ [Apply obj name ys]\<rparr>)
       \<and> (xs \<noteq> [] \<and> is_fn (last xs) \<longrightarrow>
            hijack xs = butlast xs @ [newCallback (last xs)])
       \<and> (\<not> (xs \<noteq> [] \<and> is_fn (last xs)) \<longrightarrow>
            hijack xs = xs @ [newCallback dummyCallback])
       \<and> (length xs \<le> 2 \<or> (\<not> is_fn (last xs) \<and> \<not> is_fn (xs ! (length xs - 2))) \<longrightarrow>
            hijack (each_args xs) = xs @ [dummyCallback, newCallback dummyCallback])
       \<and> (2 < length xs \<and> is_fn (last xs) \<and> \<not> is_fn (xs ! (length xs - 2)) \<longrightarrow>
            hijack (each_args xs) = xs @ [newCallback dummyCallback])
       \<and> (2 < length xs \<and> is_fn (last xs) \<and> is_fn (xs ! (length xs - 2)) \<longrightarrow>
            hijack (each_args xs) = butlast xs @ [newCallback (last xs)])
       \<and> (2 < length xs \<and> \<not> is_fn (last xs) \<and> is_fn (xs ! (length xs - 2)) \<longrightarrow>
            hijack (each_args xs) = xs @ [newCallback dummyCallback])"
proof -
  have shapes: "(xs \<noteq> [] \<and> is_fn (last xs) \<longrightarrow>
            hijack xs = butlast xs @ [newCallback (last xs)])
       \<and> (\<not> (xs \<noteq> [] \<and> is_fn (last xs)) \<longrightarrow>
            hijack xs = xs @ [newCallback dummyCallback])
       \<and> (length xs \<le> 2 \<or> (\<not> is_fn (last xs) \<and> \<not> is_fn (xs ! (length xs - 2))) \<longrightarrow>
            hijack (each_args xs) = xs @ [dummyCallback, newCallback dummyCallback])
       \<and> (2 < length xs \<and> is_fn (last xs) \<and> \<not> is_fn (xs ! (length xs - 2)) \<longrightarrow>
            hijack (each_args xs) = xs @ [newCallback dummyCallback])
       \<and> (2 < length xs \<and> is_fn (last xs) \<and> is_fn (xs ! (length xs - 2)) \<longrightarrow>
            hijack (each_args xs) = butlast xs @ [newCallback (last xs)])
       \<and> (2 < length xs \<and> \<not> is_fn (last xs) \<and> is_fn (xs ! (length xs - 2)) \<longrightarrow>
            hijack (each_args xs) = xs @ [newCallback dummyCallback])"
    using hijack_fn [of xs] hijack_no_fn [of xs] wrapped_each_cases [of xs] by blast
  have basic: "0 \<le> lock (state_of (run acts s))
       \<and> (lock s = 0 \<longrightarrow>
            invoke (newCallback f) args s = Inl (Error ''Locks are not balanced'', s))
       \<and> (0 < lock s \<longrightarrow>
            invoke (newCallback f) args s = invoke f args (s\<lparr>lock := lock s - 1\<rparr>)
          \<and> invoke (newCallback (UserFn n)) args s =
              Inr (emit (Called n args) (s\<lparr>lock := lock s - 1\<rparr>))
          \<and> invoke (newCallback dummyCallback) [] s = Inr (s\<lparr>lock := lock s - 1\<rparr>))"
    using assms by (simp add: run_lock arg_def truthy_def)
  have tied: "\<exists>pre orig.
                hijack (if name = ''each'' then each_args xs else xs) = pre @ [newCallback orig]
              \<and> (\<forall>v\<in>set pre. \<forall>g. v \<noteq> newCallback g)
              \<and> (orig = dummyCallback \<or> (\<exists>k. orig = UserFn k))
              \<and> (nullish (currentTransaction s) \<longrightarrow>
                   wrapDbMethod obj name xs s =
                     Inr (emit (Apply obj name (pre @ [newCallback orig]))
                            (s\<lparr>lock := lock s + 1\<rparr>))
                 \<and> lock (state_of (and_then (wrapDbMethod obj name xs s)
                                      (invoke (newCallback orig) a))) = lock s)
              \<and> (\<not> nullish (currentTransaction s) \<longrightarrow>
                   wrapDbMethod obj name xs s =
                     Inr (s\<lparr>queue := queue s @
                            [Method True obj name (pre @ [newCallback orig])]\<rparr>))
              \<and> (\<forall>t. 0 < lock t \<longrightarrow>
                   (\<exists>t'. invoke (newCallback orig) a t = Inr t' \<and> lock t' = lock t - 1))"
    if l: "name \<in> set lockMethods" and c: "\<forall>v\<in>set xs. caller_value v"
  proof -
    from wrapped_shape [OF c, of name] obtain pre orig where
      h: "hijack (if name = ''each'' then each_args xs else xs) = pre @ [newCallback orig]"
      and p: "\<forall>v\<in>set pre. \<forall>g. v \<noteq> newCallback g"
      and o: "orig = dummyCallback \<or> (\<exists>k. orig = UserFn k)"
      by blast
    have d: "wrapDbMethod obj name xs s =
        Inr (emit (Apply obj name (pre @ [newCallback orig])) (s\<lparr>lock := lock s + 1\<rparr>))"
      if "nullish (currentTransaction s)"
      using that l h by (simp add: wrapDbMethod_def Let_def)
    have q: "wrapDbMethod obj name xs s =
        Inr (s\<lparr>queue := queue s @ [Method True obj name (pre @ [newCallback orig])]\<rparr>)"
      if "\<not> nullish (currentTransaction s)"
      using that l h by (simp add: wrapDbMethod_def Let_def)
    have rtrip: "lock (state_of (and_then (wrapDbMethod obj name xs s)
                                  (invoke (newCallback orig) a))) = lock s"
      if "nullish (currentTransaction s)"
      using d [OF that] o assms by (auto simp: and_then_def emit_def)
    have dec: "\<forall>t. 0 < lock t \<longrightarrow>
        (\<exists>t'. invoke (newCallback orig) a t = Inr t' \<and> lock t' = lock t - 1)"
      using completion_decrements [OF o] by blast
    from h p o d q rtrip dec show ?thesis by blast
  qed
  from basic tied runQueue_one_lock [where s = s and obj = obj and name = name and ys = ys]
    shapes
  show ?thesis
    by blast
qed

theorem lock_never_negative_witness:
  "0 \<le> lock (state_of (run [CallMethod Connection ''run'' [Str ''q'', UserFn 1],
                             Complete (newCallback (UserFn 1)) [Null],
                             Complete (newCallback (UserFn 1)) [Null]] idle))
   \<and> invoke (newCallback (UserFn 1)) [Null] idle = Inl (Error ''Locks are not balanced'', idle)
   \<and> invoke (newCallback (UserFn 1)) [Null] (idle\<lparr>lock := 1\<rparr>) =
       Inr (emit (Called 1 [Null]) (idle\<lparr>lock := 0\<rparr>))
   \<and> wrapDbMethod Connection ''each'' [Str ''q'', UserFn 1] idle =
       Inr (idle\<lparr>lock := 1,
                 trace := [Apply Connection ''each''
                            [Str ''q'', UserFn 1, dummyCallback, newCallback dummyCallback]]\<rparr>)
   \<and> run [CallMethod Connection ''run'' [Str ''q'', UserFn 1],
          Complete (newCallback (UserFn 1)) [Null]] idle =
       Inr (idle\<lparr>trace := [Apply Connection ''run'' [Str ''q'', newCallback (UserFn 1)],
                           Called 1 [Null]]\<rparr>)
   \<and> wrapDbMethod Connection ''run'' [Str ''q'', UserFn 1] (idle\<lparr>currentTransaction := Tr\<rparr>) =
       Inr (idle\<lparr>currentTransaction := Tr,
                 queue := [Method True Connection ''run'' [Str ''q'', newCallback (UserFn 1)]]\<rparr>)
   \<and> runQueue (idle\<lparr>queue := [Method True Connection ''run'' [Str ''q'', newCallback (UserFn 1)]]\<rparr>) =
       Inr (idle\<lparr>lock := 1,
                 trace := [Apply Connection ''run'' [Str ''q'', newCallback (UserFn 1)]]\<rparr>)"
  using lock_never_negative [where s = idle and acts = "[CallMethod Connection ''run'' [Str ''q'', UserFn 1],
                             Complete (newCallback (UserFn 1)) [Null],
                             Complete (newCallback (UserFn 1)) [Null]]" and f = "UserFn 1"
        and args = "[Null]" and n = 1 and name = "''each''" and xs = "[Str ''q'', UserFn 1]"
        and obj = Connection and a = "[Null]"
        and ys = "[Str ''q'', newCallback (UserFn 1)]"]
    lock_never_negative [where s = "idle\<lparr>lock := 1\<rparr>" and acts = "[]" and f = "UserFn 1"
        and args = "[Null]" and n = 1 and name = "''run''" and xs = "[Str ''q'', UserFn 1]"
        and obj = Connection and a = "[Null]" and ys = "[]"]
    lock_never_negative [where s = idle and acts = "[]" and f = "UserFn 1"
        and args = "[Null]" and n = 1 and name = "''run''" and xs = "[Str ''q'', UserFn 1]"
        and obj = Connection and a = "[Null]" and ys = "[Str ''q'', newCallback (UserFn 1)]"]
  by (simp add: idle_def and_then_def wrapDbMethod_def lockMethods_def each_args_def hijack_def
      fn_at_def nullish_def emit_def Let_def arg_def truthy_def)

subsection \<open>Waiting for the lock\<close>

lemma poll_run:
  "lock s \<noteq> 0 \<Longrightarrow>
   run (replicate n (Resume (Check w tx cb) [])) s =
     Inr (s\<lparr>trace := trace s @ replicate n (SetTimeout (Check w tx cb) poll_delay)\<rparr>)"
proof (induction n arbitrary: s)
  case 0
  then show ?case by simp
next
  case (Suc n)
  let ?s1 = "emit (SetTimeout (Check w tx cb) poll_delay) s"
  from Suc.prems have "lock ?s1 \<noteq> 0"
    by (simp add: emit_def)
  from Suc.IH [OF this] Suc.prems show ?case
    by (simp add: check_eq and_then_def emit_def replicate_app_Cons_same)
qed

text \<open>
  Claim C10. \<^verbatim>\<open>_wait\<close> calls its continuation (which issues its command) when the lock
  counter is zero, and only then: while the counter is not zero it changes nothing, issues
  nothing and asks for a timer that calls \<^verbatim>\<open>check\<close> again, with a delay of
  \<open>poll_delay\<close> milliseconds, at most 5. However many such timers fire while the counter
  is not zero, each only asks for the next. The delay is the one the code requests from
  \<^verbatim>\<open>setTimeout\<close>; when the host runs the timer is outside the model.
\<close>

theorem wait_polls_until_unlocked:
  "(lock s = 0 \<longrightarrow> wait w tx cb s = waited w tx cb s)
 \<and> (lock s \<noteq> 0 \<longrightarrow>
      wait w tx cb s = Inr (emit (SetTimeout (Check w tx cb) poll_delay) s)
    \<and> run (replicate n (Resume (Check w tx cb) [])) s =
        Inr (s\<lparr>trace := trace s @ replicate n (SetTimeout (Check w tx cb) poll_delay)\<rparr>))
 \<and> resume (Check w tx cb) args s = wait w tx cb s
 \<and> waited w tx cb s =
     Inr (emit (Exec (case w of BeginW \<Rightarrow> ''BEGIN;'' | CommitW \<Rightarrow> ''COMMIT;''
                              | RollbackW \<Rightarrow> ''ROLLBACK;'') (ExecDone w tx cb)) s)
 \<and> poll_delay \<le> 5"
proof -
  have "waited w tx cb s =
     Inr (emit (Exec (case w of BeginW \<Rightarrow> ''BEGIN;'' | CommitW \<Rightarrow> ''COMMIT;''
                              | RollbackW \<Rightarrow> ''ROLLBACK;'') (ExecDone w tx cb)) s)"
    by (cases w) (simp_all add: exec_def)
  then show ?thesis
    by (simp add: wait_def check_def poll_run poll_delay_def)
qed

theorem wait_polls_until_unlocked_witness:
  "wait CommitW 0 (UserFn 1) idle = Inr (emit (Exec ''COMMIT;'' (ExecDone CommitW 0 (UserFn 1))) idle)
 \<and> wait CommitW 0 (UserFn 1) (idle\<lparr>lock := 2\<rparr>) =
     Inr (emit (SetTimeout (Check CommitW 0 (UserFn 1)) 1) (idle\<lparr>lock := 2\<rparr>))"
  using wait_polls_until_unlocked [of idle CommitW 0 "UserFn 1" 0 "[]"]
    wait_polls_until_unlocked [of "idle\<lparr>lock := 2\<rparr>" CommitW 0 "UserFn 1" 0 "[]"]
  by (simp add: idle_def exec_def poll_delay_def)

subsection \<open>Finished transactions\<close>

lemma resume_rollback_finished:
  "tx < begun s \<Longrightarrow> tx \<in> finished (state_of (resume (ExecDone RollbackW tx cb) args s))"
  by (simp add: finishTransaction_finished)

lemma resume_commit_finished:
  "tx < begun s \<Longrightarrow> \<not> truthy (arg args 0) \<Longrightarrow>
   tx \<in> finished (state_of (resume (ExecDone CommitW tx cb) args s))"
  by (simp add: finishTransaction_finished)

text \<open>
  Claim C6, as amended. Let \<open>tx\<close> be an activation of \<^verbatim>\<open>beginTransaction\<close> that has
  started. Once its ROLLBACK has completed, or its COMMIT has completed without an error,
  its variable \<^verbatim>\<open>finished\<close> is true. From then on the \<^verbatim>\<open>commit\<close> and \<^verbatim>\<open>rollback\<close> it
  assigned do nothing but call the callback, at once, with the error of line 124 or line
  143; for a callback of the caller's the state is unchanged but for the record of that
  call. A call of \<^verbatim>\<open>commit\<close> or \<^verbatim>\<open>rollback\<close> on the handle is such a call as long as no
  later activation has assigned the two properties anew.
\<close>

theorem finished_transaction_refuses:
  "(tx < begun s \<longrightarrow>
      tx \<in> finished (state_of (resume (ExecDone RollbackW tx cb) args s))
    \<and> (\<not> truthy (arg args 0) \<longrightarrow>
         tx \<in> finished (state_of (resume (ExecDone CommitW tx cb) args s))))
 \<and> (tx \<in> finished s \<longrightarrow>
      commit tx cb s =
        invoke cb [ErrorObj ''Transaction is already commit and cannot do commit().''] s
    \<and> rollback tx cb s =
        invoke cb [ErrorObj ''Transaction is already finished and cannot rollback().''] s
    \<and> commit tx (UserFn n) s =
        Inr (emit (Called n [ErrorObj ''Transaction is already commit and cannot do commit().'']) s)
    \<and> rollback tx (UserFn n) s =
        Inr (emit (Called n [ErrorObj ''Transaction is already finished and cannot rollback().'']) s)
    \<and> (bound s = Some tx \<longrightarrow>
         tr_commit cb s = commit tx cb s \<and> tr_rollback cb s = rollback tx cb s))"
  using resume_rollback_finished [of tx s cb args] resume_commit_finished [of tx s args cb]
  by (simp add: commit_def rollback_def tr_commit_def tr_rollback_def)

text \<open>One transaction, committed twice: the first call commits, the second is refused.\<close>

theorem finished_transaction_refuses_witness:
  "run [BeginTransaction [UserFn 0], Resume (ExecDone BeginW 0 (UserFn 0)) [Null],
        TrCommit (UserFn 1), Resume (ExecDone CommitW 0 (UserFn 1)) [Null]] idle
   = Inr (idle\<lparr>begun := 1, finished := {0}, bound := Some 0,
               trace := [Exec ''BEGIN;'' (ExecDone BeginW 0 (UserFn 0)), Called 0 [Null, Tr],
                         Exec ''COMMIT;'' (ExecDone CommitW 0 (UserFn 1)), Called 1 [Null]]\<rparr>)
 \<and> tr_commit (UserFn 2)
     (idle\<lparr>begun := 1, finished := {0}, bound := Some 0,
            trace := [Exec ''BEGIN;'' (ExecDone BeginW 0 (UserFn 0)), Called 0 [Null, Tr],
                      Exec ''COMMIT;'' (ExecDone CommitW 0 (UserFn 1)), Called 1 [Null]]\<rparr>)
   = Inr (idle\<lparr>begun := 1, finished := {0}, bound := Some 0,
               trace := [Exec ''BEGIN;'' (ExecDone BeginW 0 (UserFn 0)), Called 0 [Null, Tr],
                         Exec ''COMMIT;'' (ExecDone CommitW 0 (UserFn 1)), Called 1 [Null],
                         Called 2 [ErrorObj ''Transaction is already commit and cannot do commit().'']]\<rparr>)"
  using finished_transaction_refuses [of 0
     "idle\<lparr>begun := 1, finished := {0}, bound := Some 0,
            trace := [Exec ''BEGIN;'' (ExecDone BeginW 0 (UserFn 0)), Called 0 [Null, Tr],
                      Exec ''COMMIT;'' (ExecDone CommitW 0 (UserFn 1)), Called 1 [Null]]\<rparr>"
     "UserFn 2" "[]" 2]
  by (simp add: run_defs)

text \<open>
  Claim C6 as stated fails. The first transaction is committed and finished, a second
  one is begun, and \<^verbatim>\<open>commit\<close> is called on the handle of the first, which is the
  connection object, the handle of the second as well: the call is not refused, it issues
  the COMMIT of the second transaction.
\<close>

theorem finished_handle_counterexample:
  "\<exists>s. run [BeginTransaction [UserFn 0], Resume (ExecDone BeginW 0 (UserFn 0)) [Null],
            TrCommit (UserFn 1), Resume (ExecDone CommitW 0 (UserFn 1)) [Null],
            BeginTransaction [UserFn 2], Resume (ExecDone BeginW 1 (UserFn 2)) [Null]] idle = Inr s
     \<and> finished s = {0} \<and> bound s = Some 1 \<and> currentTransaction s = Tr
     \<and> tr_commit (UserFn 3) s = Inr (emit (Exec ''COMMIT;'' (ExecDone CommitW 1 (UserFn 3))) s)
     \<and> tr_commit (UserFn 3) s \<noteq>
         invoke (UserFn 3) [ErrorObj ''Transaction is already commit and cannot do commit().''] s"
  by (simp add: run_defs)

subsection \<open>Failures of BEGIN and COMMIT, and the connection's error event\<close>

text \<open>
  Claim C1 on the code. A transaction is begun and \<^verbatim>\<open>commit\<close> is called with the
  caller's function 1; the driver fails the COMMIT with an error. The code issues the
  ROLLBACK, and nothing has called function 1 by then. When the ROLLBACK completes, the
  transaction is finished and the callback of line 132 runs: it throws a ReferenceError
  for the identifier \<^verbatim>\<open>error\<close>, and function 1 is never called. The same holds in every
  state: the completion of a ROLLBACK that compensates a failed COMMIT throws.
\<close>

theorem commit_failure_throws:
  "run [BeginTransaction [UserFn 0], Resume (ExecDone BeginW 0 (UserFn 0)) [Null],
        TrCommit (UserFn 1),
        Resume (ExecDone CommitW 0 (UserFn 1)) [ErrorObj ''SQLITE_FULL'']] idle
   = Inr (idle\<lparr>begun := 1, currentTransaction := Tr, bound := Some 0,
               trace := [Exec ''BEGIN;'' (ExecDone BeginW 0 (UserFn 0)), Called 0 [Null, Tr],
                         Exec ''COMMIT;'' (ExecDone CommitW 0 (UserFn 1)),
                         Exec ''ROLLBACK;'' (ExecDone RollbackW 0 (commitFailed (UserFn 1)))]\<rparr>)
 \<and> run [BeginTransaction [UserFn 0], Resume (ExecDone BeginW 0 (UserFn 0)) [Null],
        TrCommit (UserFn 1),
        Resume (ExecDone CommitW 0 (UserFn 1)) [ErrorObj ''SQLITE_FULL''],
        Resume (ExecDone RollbackW 0 (commitFailed (UserFn 1))) [Null]] idle
   = Inl (ReferenceError ''error is not defined'',
          idle\<lparr>begun := 1, finished := {0}, bound := Some 0,
               trace := [Exec ''BEGIN;'' (ExecDone BeginW 0 (UserFn 0)), Called 0 [Null, Tr],
                         Exec ''COMMIT;'' (ExecDone CommitW 0 (UserFn 1)),
                         Exec ''ROLLBACK;'' (ExecDone RollbackW 0 (commitFailed (UserFn 1)))]\<rparr>)
 \<and> (\<forall>tx cb args s. \<exists>s'. resume (ExecDone RollbackW tx (commitFailed cb)) args s =
                            Inl (ReferenceError ''error is not defined'', s'))"
proof -
  have "\<exists>s'. resume (ExecDone RollbackW tx (commitFailed cb)) args s =
               Inl (ReferenceError ''error is not defined'', s')" for tx cb args s
    using runQueue_returns [of "s\<lparr>finished := insert tx (finished s), currentTransaction := Null\<rparr>"]
    by (auto simp: finishTransaction_def and_then_def)
  then show ?thesis
    by (simp add: run_defs)
qed

text \<open>
  Claim C8 on the code. \<^verbatim>\<open>beginTransaction\<close> is called in the idle state and the driver
  fails the BEGIN. The caller's function 0 is called with the error and with no handle,
  but \<^verbatim>\<open>currentTransaction\<close> stays set: the next \<^verbatim>\<open>beginTransaction\<close> and the next
  wrapped call are queued, and nothing is left to drain the queue.
\<close>

theorem begin_failure_keeps_transaction:
  "run [BeginTransaction [UserFn 0],
        Resume (ExecDone BeginW 0 (UserFn 0)) [ErrorObj ''SQLITE_BUSY'']] idle
   = Inr (idle\<lparr>begun := 1, currentTransaction := Tr, bound := Some 0,
               trace := [Exec ''BEGIN;'' (ExecDone BeginW 0 (UserFn 0)),
                         Called 0 [ErrorObj ''SQLITE_BUSY'']]\<rparr>)
 \<and> run [BeginTransaction [UserFn 0],
        Resume (ExecDone BeginW 0 (UserFn 0)) [ErrorObj ''SQLITE_BUSY''],
        BeginTransaction [UserFn 1],
        CallMethod Connection ''run'' [Str ''q'', UserFn 2]] idle
   = Inr (idle\<lparr>begun := 1, currentTransaction := Tr, bound := Some 0,
               queue := [Transaction [UserFn 1],
                         Method True Connection ''run'' [Str ''q'', newCallback (UserFn 2)]],
               trace := [Exec ''BEGIN;'' (ExecDone BeginW 0 (UserFn 0)),
                         Called 0 [ErrorObj ''SQLITE_BUSY'']]\<rparr>)"
  by (simp add: run_defs wrapDbMethod_def lockMethods_def hijack_def fn_at_def)

text \<open>
  Claim C9 on the code. A transaction is active and the connection emits its error
  event. The listener of line 42 runs with the connection as \<^verbatim>\<open>this\<close>, finds no
  \<^verbatim>\<open>currentTransaction\<close> there and returns: no ROLLBACK is issued, in this run and in
  every state. Run on the wrapper, the same listener would issue the ROLLBACK.
\<close>

theorem connection_error_no_rollback:
  "run [BeginTransaction [UserFn 0], Resume (ExecDone BeginW 0 (UserFn 0)) [Null],
        ConnectionError] idle
   = Inr (idle\<lparr>begun := 1, currentTransaction := Tr, bound := Some 0,
               trace := [Exec ''BEGIN;'' (ExecDone BeginW 0 (UserFn 0)), Called 0 [Null, Tr]]\<rparr>)
 \<and> (\<forall>s. connection_error s = Inr s)
 \<and> errorListener Wrapper
      (idle\<lparr>begun := 1, currentTransaction := Tr, bound := Some 0,
             trace := [Exec ''BEGIN;'' (ExecDone BeginW 0 (UserFn 0)), Called 0 [Null, Tr]]\<rparr>)
   = Inr (idle\<lparr>begun := 1, currentTransaction := Tr, bound := Some 0,
               trace := [Exec ''BEGIN;'' (ExecDone BeginW 0 (UserFn 0)), Called 0 [Null, Tr],
                         Exec ''ROLLBACK;'' (ExecDone RollbackW 0 noop)]\<rparr>)"
  by (simp add: run_defs)

subsection \<open>A completion that arrives late\<close>

text \<open>
  Claim C3 on the code. After \<open>late_rollback_run\<close> the second transaction is active: its
  BEGIN succeeded, the caller's function 1 was given the handle, and it is not finished.
  But the late completion of the first transaction's ROLLBACK ran \<^verbatim>\<open>finishTransaction\<close>
  a second time and cleared \<^verbatim>\<open>currentTransaction\<close>. A wrapped \<^verbatim>\<open>run\<close> called now is
  applied at once, inside the open transaction, and nothing is queued.
\<close>

theorem late_rollback_dispatches_at_once:
  "run late_rollback_run idle
   = Inr (idle\<lparr>begun := 2, finished := {0}, bound := Some 1, currentTransaction := Null,
               trace := [Exec ''BEGIN;'' (ExecDone BeginW 0 (UserFn 0)), Called 0 [Null, Tr],
                         Exec ''COMMIT;'' (ExecDone CommitW 0 (UserFn 2)),
                         Exec ''ROLLBACK;'' (ExecDone RollbackW 0 (UserFn 3)),
                         Exec ''BEGIN;'' (ExecDone BeginW 1 (UserFn 1)), Called 2 [Null],
                         Called 3 [ErrorObj ''no transaction is active''],
                         Called 1 [Null, Tr]]\<rparr>)
 \<and> run (late_rollback_run @ [CallMethod Connection ''run'' [Str ''q'', UserFn 4]]) idle
   = Inr (idle\<lparr>begun := 2, finished := {0}, bound := Some 1, currentTransaction := Null,
               lock := 1, queue := [],
               trace := [Exec ''BEGIN;'' (ExecDone BeginW 0 (UserFn 0)), Called 0 [Null, Tr],
                         Exec ''COMMIT;'' (ExecDone CommitW 0 (UserFn 2)),
                         Exec ''ROLLBACK;'' (ExecDone RollbackW 0 (UserFn 3)),
                         Exec ''BEGIN;'' (ExecDone BeginW 1 (UserFn 1)), Called 2 [Null],
                         Called 3 [ErrorObj ''no transaction is active''],
                         Called 1 [Null, Tr],
                         Apply Connection ''run'' [Str ''q'', newCallback (UserFn 4)]]\<rparr>)"
  by (simp add: late_rollback_run_def run_defs runQueue_Transaction wrapDbMethod_def
      lockMethods_def hijack_def fn_at_def)

text \<open>
  Claim C7 on the code. In the same state, with the second transaction active, a call of
  \<^verbatim>\<open>beginTransaction\<close> is not queued: it starts a third activation at once, assigns the
  handle's \<^verbatim>\<open>commit\<close> and \<^verbatim>\<open>rollback\<close> anew and issues BEGIN inside the open
  transaction.
\<close>

theorem late_rollback_nested_begin:
  "run (late_rollback_run @ [BeginTransaction [UserFn 4]]) idle
   = Inr (idle\<lparr>begun := 3, finished := {0}, bound := Some 2, currentTransaction := Tr,
               queue := [],
               trace := [Exec ''BEGIN;'' (ExecDone BeginW 0 (UserFn 0)), Called 0 [Null, Tr],
                         Exec ''COMMIT;'' (ExecDone CommitW 0 (UserFn 2)),
                         Exec ''ROLLBACK;'' (ExecDone RollbackW 0 (UserFn 3)),
                         Exec ''BEGIN;'' (ExecDone BeginW 1 (UserFn 1)), Called 2 [Null],
                         Called 3 [ErrorObj ''no transaction is active''],
                         Called 1 [Null, Tr],
                         Exec ''BEGIN;'' (ExecDone BeginW 2 (UserFn 4))]\<rparr>)"
  by (simp add: late_rollback_run_def run_defs runQueue_Transaction)

section \<open>Properties of the constructor\<close>






















end
